theory Spec2Isabelle
  imports Main "HOL-Library.Signed_Division" "HOL-Library.Sublist" "HOL-Library.Multiset"
begin

section \<open>Text and formatting primitives of the Go runtime\<close>

text \<open>
  Go strings are modelled as \<^typ>\<open>string\<close>, one \<^typ>\<open>char\<close> per byte; the text handled
  by the tool is taken to be ASCII, so that a byte, a rune and a character coincide.
  Go's \<open>int\<close> is modelled by \<^typ>\<open>int\<close>: the arithmetic of the program (a remainder and a
  quotient by 26, a subtraction of 10, increments of counters) stays far from the
  64-bit bounds for every index and count a run can produce.
\<close>

text \<open>\<open>fmt.Sprintf("%d", n)\<close>: the decimal digits of \<open>n\<close>, with a minus sign when negative.\<close>

definition digit_char :: "nat \<Rightarrow> char" where
  "digit_char d = char_of (48 + d)"

function decimal :: "nat \<Rightarrow> string" where
  "decimal n = (if n < 10 then [digit_char n] else decimal (n div 10) @ [digit_char (n mod 10)])"
  by pat_completeness auto
termination
  by (relation "measure id") auto

declare decimal.simps [simp del]

definition Sprintf_d :: "int \<Rightarrow> string" where
  "Sprintf_d n = (if n < 0 then CHR ''-'' # decimal (nat (- n)) else decimal (nat n))"

text \<open>
  The character classes of the regular expressions and of package \<open>strings\<close>, on ASCII:
  \<open>\s\<close> and \<open>unicode.IsSpace\<close> are space, tab, line feed, vertical tab, form feed
  and carriage return; \<open>\w\<close> is a letter, a digit or the underscore.
\<close>

definition is_space :: "char \<Rightarrow> bool" where
  "is_space c = (let n = (of_char c :: nat) in n = 32 \<or> (9 \<le> n \<and> n \<le> 13))"

definition is_digit :: "char \<Rightarrow> bool" where
  "is_digit c = (let n = (of_char c :: nat) in 48 \<le> n \<and> n \<le> 57)"

definition is_letter :: "char \<Rightarrow> bool" where
  "is_letter c = (let n = (of_char c :: nat) in (65 \<le> n \<and> n \<le> 90) \<or> (97 \<le> n \<and> n \<le> 122))"

definition is_word :: "char \<Rightarrow> bool" where
  "is_word c = (is_letter c \<or> is_digit c \<or> c = CHR ''_'')"

definition dquote :: char where
  "dquote = CHR 0x22"

definition squote :: char where
  "squote = CHR 0x27"

definition is_quote :: "char \<Rightarrow> bool" where
  "is_quote c = (c = dquote \<or> c = squote)"

text \<open>\<open>strings.Fields(s)\<close>: the maximal runs of non-space characters, in order.\<close>

function Fields :: "string \<Rightarrow> string list" where
  "Fields s =
     (case dropWhile is_space s of
        [] \<Rightarrow> []
      | c # cs \<Rightarrow> (c # takeWhile (\<lambda>x. \<not> is_space x) cs)
                  # Fields (dropWhile (\<lambda>x. \<not> is_space x) cs))"
  by pat_completeness auto
termination
proof (relation "measure length", simp, simp)
  fix s :: string and c cs
  assume h: "dropWhile is_space s = c # cs"
  have "length (dropWhile (\<lambda>x. \<not> is_space x) cs) \<le> length cs"
    by (rule length_dropWhile_le)
  moreover have "length (c # cs) \<le> length s"
    using length_dropWhile_le [of is_space s] h by simp
  ultimately show "length (dropWhile (\<lambda>x. \<not> is_space x) cs) < length s"
    by simp
qed

declare Fields.simps [simp del]

text \<open>
  \<open>strings.Split(s, sep)\<close> for the one-character separators the program uses
  (\<open>"."\<close> and \<open>","\<close>): the pieces between the separators, empty pieces included.
\<close>

fun Split :: "string \<Rightarrow> char \<Rightarrow> string list" where
  "Split [] sep = [[]]"
| "Split (c # cs) sep =
     (if c = sep then [] # Split cs sep
      else (case Split cs sep of [] \<Rightarrow> [[c]] | p # ps \<Rightarrow> (c # p) # ps))"

text \<open>\<open>strings.SplitN(s, sep, 2)\<close>: cut at the first separator, if there is one.\<close>

definition SplitN2 :: "string \<Rightarrow> char \<Rightarrow> string list" where
  "SplitN2 s sep =
     (if sep \<in> set s then [takeWhile (\<lambda>x. x \<noteq> sep) s, tl (dropWhile (\<lambda>x. x \<noteq> sep) s)]
      else [s])"

text \<open>\<open>strings.Join(elems, sep)\<close>.\<close>

fun Join :: "string list \<Rightarrow> string \<Rightarrow> string" where
  "Join [] sep = []"
| "Join [x] sep = x"
| "Join (x # y # ys) sep = x @ sep @ Join (y # ys) sep"

text \<open>\<open>strings.HasSuffix(s, suffix)\<close>.\<close>

definition HasSuffix :: "string \<Rightarrow> string \<Rightarrow> bool" where
  "HasSuffix s suf = (length suf \<le> length s \<and> drop (length s - length suf) s = suf)"

text \<open>
  \<open>strings.Replace(s, old, new, 1)\<close>: the first occurrence of \<open>old\<close> in \<open>s\<close> is
  replaced by \<open>new\<close>; without an occurrence \<open>s\<close> is returned. An empty \<open>old\<close>
  matches at the beginning.
\<close>

fun Replace1 :: "string \<Rightarrow> string \<Rightarrow> string \<Rightarrow> string" where
  "Replace1 [] old new = (if old = [] then new else [])"
| "Replace1 (c # cs) old new =
     (if prefix old (c # cs) then new @ drop (length old) (c # cs)
      else c # Replace1 cs old new)"

text \<open>\<open>strings.Trim(s, cutset)\<close> and \<open>strings.TrimSpace(s)\<close>.\<close>

definition Trim :: "string \<Rightarrow> (char \<Rightarrow> bool) \<Rightarrow> string" where
  "Trim s cutset = rev (dropWhile cutset (rev (dropWhile cutset s)))"

definition TrimSpace :: "string \<Rightarrow> string" where
  "TrimSpace s = Trim s is_space"

text \<open>
  \<open>strings.Index(s, c)\<close> and \<open>strings.LastIndex(s, c)\<close> for a one-character
  needle, \<open>-1\<close> when it does not occur.
\<close>

definition Index :: "string \<Rightarrow> char \<Rightarrow> int" where
  "Index s c = (if c \<in> set s then int (length (takeWhile (\<lambda>x. x \<noteq> c) s)) else - 1)"

definition LastIndex :: "string \<Rightarrow> char \<Rightarrow> int" where
  "LastIndex s c =
     (if c \<in> set s then int (length s) - 1 - int (length (takeWhile (\<lambda>x. x \<noteq> c) (rev s)))
      else - 1)"

section \<open>Regular expressions\<close>

text \<open>
  The five patterns of the program use literals, character classes, concatenation,
  alternation and the greedy quantifiers \<open>?\<close>, \<open>*\<close> and \<open>+\<close>; capture groups are
  never read, since \<open>regexp2FindAllString\<close> keeps only the text of the whole match.
  \<open>regexp2\<close> is a backtracking matcher: \<open>ends r s\<close> lists, in the order in which
  backtracking tries them, the rests of \<open>s\<close> left after a match of \<open>r\<close> at its beginning.
  The first element is the match the library reports at that position. An iteration of
  a starred pattern that consumes nothing is not repeated.
\<close>

datatype regex =
    Eps
  | Sym "char \<Rightarrow> bool"
  | Seq regex regex
  | Alt regex regex
  | Star regex

function ends :: "regex \<Rightarrow> string \<Rightarrow> string list" where
  "ends Eps s = [s]"
| "ends (Sym P) s = (case s of [] \<Rightarrow> [] | c # cs \<Rightarrow> if P c then [cs] else [])"
| "ends (Seq a b) s = concat (map (ends b) (ends a s))"
| "ends (Alt a b) s = ends a s @ ends b s"
| "ends (Star a) s =
     concat (map (\<lambda>t. if length t < length s then ends (Star a) t else []) (ends a s)) @ [s]"
  by pat_completeness auto
termination
  by (relation "measure size <*lex*> measure length") auto

declare ends.simps(5) [simp del]

definition Lit :: "char \<Rightarrow> regex" where
  "Lit c = Sym (\<lambda>x. x = c)"

definition Str :: "string \<Rightarrow> regex" where
  "Str s = foldr (\<lambda>c r. Seq (Lit c) r) s Eps"

definition Opt :: "regex \<Rightarrow> regex" where
  "Opt r = Alt r Eps"

definition Plus :: "regex \<Rightarrow> regex" where
  "Plus r = Seq r (Star r)"

definition seqs :: "regex list \<Rightarrow> regex" where
  "seqs rs = foldr Seq rs Eps"

text \<open>
  \<open>regexp2FindAllString(re, s)\<close>: \<open>FindStringMatch\<close> reports the match at the leftmost
  position that has one, \<open>FindNextMatch\<close> goes on from the end of the previous match
  (one character further after an empty match); the texts of the matches are collected.
\<close>

function regexp2FindAllString :: "regex \<Rightarrow> string \<Rightarrow> string list" where
  "regexp2FindAllString re s =
     (case ends re s of
        [] \<Rightarrow> (case s of [] \<Rightarrow> [] | c # cs \<Rightarrow> regexp2FindAllString re cs)
      | e # es \<Rightarrow>
          (let n = length s - length e in
           if n = 0 then (case s of [] \<Rightarrow> [[]] | c # cs \<Rightarrow> [] # regexp2FindAllString re cs)
           else take n s # regexp2FindAllString re (drop n s)))"
  by pat_completeness auto
termination
  by (relation "measure (\<lambda>(re, s). length s)") auto

declare regexp2FindAllString.simps [simp del]

text \<open>The patterns, as compiled at the head of \<open>main.go\<close>.\<close>

definition htmlClassRegex :: regex where
  "htmlClassRegex =
     seqs [Str ''class'', Star (Sym is_space), Lit CHR ''='', Star (Sym is_space),
           Opt (Sym is_quote),
           Plus (Sym (\<lambda>c. is_word c \<or> is_space c \<or> c = CHR ''-'')),
           Opt (Sym is_quote)]"

definition cssClassRegex :: regex where
  "cssClassRegex =
     seqs [Lit CHR ''.'', Sym (\<lambda>c. is_letter c \<or> c = CHR ''_''),
           Star (Sym (\<lambda>c. is_word c \<or> c = CHR ''-''))]"

definition jsQuerySelectorRegex :: regex where
  "jsQuerySelectorRegex =
     seqs [Str ''querySelector'', Opt (Str ''All''), Lit CHR ''('', Star (Sym is_space),
           Sym is_quote, Lit CHR ''.'',
           Plus (Sym (\<lambda>c. is_word c \<or> is_space c \<or> c = CHR ''.'' \<or> c = CHR ''-'')),
           Sym is_quote, Star (Sym is_space), Lit CHR '')'']"

definition jsClassListRegex :: regex where
  "jsClassListRegex =
     seqs [Str ''classList.'', Alt (Str ''add'') (Alt (Str ''remove'') (Str ''toggle'')),
           Lit CHR ''('', Star (Sym is_space),
           Sym is_quote, Plus (Sym (\<lambda>c. is_word c \<or> is_space c \<or> c = CHR ''-'')), Sym is_quote,
           Star (seqs [Lit CHR '','', Star (Sym is_space), Sym is_quote,
                       Plus (Sym (\<lambda>c. is_word c \<or> is_space c \<or> c = CHR ''-'')), Sym is_quote]),
           Star (Sym is_space), Lit CHR '')'']"

definition jsClassNameRegex :: regex where
  "jsClassNameRegex =
     seqs [Str ''className'', Star (Sym is_space), Lit CHR ''='', Star (Sym is_space),
           Sym is_quote,
           Plus (Sym (\<lambda>c. \<not> (is_quote c \<or> is_space c))),
           Star (Seq (Plus (Sym is_space)) (Plus (Sym (\<lambda>c. \<not> (is_quote c \<or> is_space c))))),
           Sym is_quote]"

section \<open>Short-name generation\<close>

text \<open>
  \<open>generateShortClassName(index)\<close>. Go's \<open>%\<close> and \<open>/\<close> truncate towards zero
  (\<open>smod\<close>, \<open>sdiv\<close>); \<open>string(firstChar)\<close> is the one-character string of the rune
  \<open>'a' + index % 26\<close>, which lies between \<open>'H'\<close> and \<open>'z'\<close> for every index.
\<close>

definition generateShortClassName :: "int \<Rightarrow> string" where
  "generateShortClassName index =
     (let firstChar = char_of (97 + index smod 26);
          second = index sdiv 26
      in if second = 0 then [firstChar]
         else let secondChar = (if second > 9 then ''a'' @ Sprintf_d (second - 10)
                                else Sprintf_d second)
              in [firstChar] @ secondChar)"

section \<open>Collection pass\<close>

text \<open>
  The usage table is Go's \<open>map[string]int\<close>; \<open>classCount[className]++\<close> reads the zero
  value for an absent key.
\<close>

definition increment :: "(string \<rightharpoonup> int) \<Rightarrow> string \<Rightarrow> (string \<rightharpoonup> int)" where
  "increment classCount className =
     classCount(className \<mapsto> (case classCount className of None \<Rightarrow> 0 | Some n \<Rightarrow> n) + 1)"

definition extractClassesFromHTML :: "string \<Rightarrow> (string \<rightharpoonup> int) \<Rightarrow> (string \<rightharpoonup> int)" where
  "extractClassesFromHTML line classCount =
     fold (\<lambda>match cc. fold (\<lambda>className cc'. increment cc' className) (Fields match) cc)
          (regexp2FindAllString htmlClassRegex line) classCount"

definition extractClassesFromCSS :: "string \<Rightarrow> (string \<rightharpoonup> int) \<Rightarrow> (string \<rightharpoonup> int)" where
  "extractClassesFromCSS line classCount =
     fold (\<lambda>match cc. increment cc (drop 1 match))
          (regexp2FindAllString cssClassRegex line) classCount"

text \<open>
  A Go slice expression \<open>s[a:b]\<close>. The program slices the text of a \<open>classList\<close>
  match between its first opening and its last closing parenthesis, and drops the first
  character of a stylesheet match. These bounds are in range for every match (lemmas
  \<open>classList_slice_in_range\<close> and \<open>css_match_nonempty\<close> below), so the panic of an
  out-of-range slice is not a branch of the model.
\<close>

definition slice :: "string \<Rightarrow> int \<Rightarrow> int \<Rightarrow> string" where
  "slice s a b = take (nat (b - a)) (drop (nat a) s)"

definition extractClassesFromClassList :: "string \<Rightarrow> string list" where
  "extractClassesFromClassList match =
     (let insideParens = slice match (Index match CHR ''('' + 1) (LastIndex match CHR '')'');
          classNames = Split insideParens CHR '',''
      in map (\<lambda>class. Trim (TrimSpace class) is_quote) classNames)"

definition extractClassesFromJS :: "string \<Rightarrow> (string \<rightharpoonup> int) \<Rightarrow> (string \<rightharpoonup> int)" where
  "extractClassesFromJS line classCount =
     (let cc1 = fold (\<lambda>match cc. fold (\<lambda>className cc'. increment cc' className)
                                       (drop 1 (Split match CHR ''.'')) cc)
                     (regexp2FindAllString jsQuerySelectorRegex line) classCount;
          cc2 = fold (\<lambda>match cc. fold (\<lambda>className cc'. increment cc' className)
                                       (extractClassesFromClassList match) cc)
                     (regexp2FindAllString jsClassListRegex line) cc1
      in fold (\<lambda>match cc. fold (\<lambda>className cc'. increment cc' className) (Fields match) cc)
              (regexp2FindAllString jsClassNameRegex line) cc2)"

section \<open>Rank and assign\<close>

record ClassUsage =
  name :: string
  count' :: int

text \<open>
  \<open>for className, count := range classCount\<close> visits the entries of the map once each,
  in an order Go leaves open: \<open>map_range m es\<close> says that \<open>es\<close> is one such order.
\<close>

definition map_range :: "('k \<rightharpoonup> 'v) \<Rightarrow> ('k \<times> 'v) list \<Rightarrow> bool" where
  "map_range m es = (distinct (map fst es) \<and> map_of es = m)"

text \<open>
  \<open>sort.Slice(x, less)\<close> is not stable: \<open>sort_Slice xs less ys\<close> says that \<open>ys\<close> is a
  result it may leave in the slice that held \<open>xs\<close>, a rearrangement of \<open>xs\<close> in which
  no later element is less than an earlier one.
\<close>

definition sort_Slice :: "'a list \<Rightarrow> ('a \<Rightarrow> 'a \<Rightarrow> bool) \<Rightarrow> 'a list \<Rightarrow> bool" where
  "sort_Slice xs lessf ys = (mset ys = mset xs \<and> sorted_wrt (\<lambda>a b. \<not> lessf b a) ys)"

inductive rankClasses :: "(string \<rightharpoonup> int) \<Rightarrow> ClassUsage list \<Rightarrow> bool" where
  ranked:
    "map_range classCount es \<Longrightarrow>
     sort_Slice (map (\<lambda>(className, count). \<lparr>name = className, count' = count\<rparr>) es)
                (\<lambda>ci cj. count' ci > count' cj) classes \<Longrightarrow>
     rankClasses classCount classes"

definition generateClassMap :: "ClassUsage list \<Rightarrow> (string \<rightharpoonup> string)" where
  "generateClassMap classes =
     fold (\<lambda>(i, class) classMap. classMap(name class \<mapsto> generateShortClassName (int i)))
          (enumerate 0 classes) Map.empty"

section \<open>Rewrite pass\<close>

text \<open>The lookup \<open>if newClass, found := classMap[className]; found\<close> with its fallback.\<close>

definition renamed :: "(string \<rightharpoonup> string) \<Rightarrow> string \<Rightarrow> string" where
  "renamed classMap className =
     (case classMap className of Some newClass \<Rightarrow> newClass | None \<Rightarrow> className)"

fun uniqueLoop :: "string set \<Rightarrow> string list \<Rightarrow> string list \<Rightarrow> string list" where
  "uniqueLoop seen unique [] = unique"
| "uniqueLoop seen unique (class # classes) =
     (if class \<in> seen then uniqueLoop seen unique classes
      else uniqueLoop (insert class seen) (unique @ [class]) classes)"

definition uniqueClasses :: "string list \<Rightarrow> string list" where
  "uniqueClasses classes = uniqueLoop {} [] classes"

definition updateCSSClasses :: "string \<Rightarrow> (string \<rightharpoonup> string) \<Rightarrow> string" where
  "updateCSSClasses line classMap =
     fold (\<lambda>match updatedLine.
             case classMap (drop 1 match) of
               Some newClass \<Rightarrow> Replace1 updatedLine match (''.'' @ newClass)
             | None \<Rightarrow> updatedLine)
          (regexp2FindAllString cssClassRegex line) line"

definition updateHTMLClasses :: "string \<Rightarrow> (string \<rightharpoonup> string) \<Rightarrow> bool \<Rightarrow> string" where
  "updateHTMLClasses line classMap allowDuplicates =
     fold (\<lambda>match updatedLine.
             let originalClasses = Fields match;
                 newClasses = map (renamed classMap) originalClasses;
                 newClasses' = (if \<not> allowDuplicates then uniqueClasses newClasses else newClasses)
             in Replace1 updatedLine match
                  (''class='' @ [dquote] @ Join newClasses' '' '' @ [dquote]))
          (regexp2FindAllString htmlClassRegex line) line"

definition updateQuerySelectors :: "string \<Rightarrow> (string \<rightharpoonup> string) \<Rightarrow> string" where
  "updateQuerySelectors line classMap =
     fold (\<lambda>match updatedLine.
             let parts = SplitN2 match CHR ''.'' in
             if length parts = 2 \<and> HasSuffix (parts ! 1) [dquote, CHR '')''] then
               let classes = map (renamed classMap)
                                 (Split (take (length (parts ! 1) - 2) (parts ! 1)) CHR ''.'')
               in Replace1 updatedLine match
                    (parts ! 0 @ ''.'' @ Join classes ''.'' @ [dquote, CHR '')''])
             else updatedLine)
          (regexp2FindAllString jsQuerySelectorRegex line) line"

definition updateClassLists :: "string \<Rightarrow> (string \<rightharpoonup> string) \<Rightarrow> string" where
  "updateClassLists line classMap =
     fold (\<lambda>match updatedLine.
             let start = Index match CHR ''('' + 1;
                 end' = LastIndex match CHR '')'';
                 classNames = map (\<lambda>className.
                                     [dquote]
                                     @ renamed classMap
                                         (Trim className (\<lambda>c. is_quote c \<or> c = CHR '' ''))
                                     @ [dquote])
                                  (Split (slice match start end') CHR '','')
             in Replace1 updatedLine match
                  (slice match 0 start @ Join classNames '', '' @ drop (nat end') match))
          (regexp2FindAllString jsClassListRegex line) line"

definition updateClassNames :: "string \<Rightarrow> (string \<rightharpoonup> string) \<Rightarrow> string" where
  "updateClassNames line classMap =
     fold (\<lambda>match updatedLine.
             let start = Index match CHR ''='' + 1;
                 classes = map (renamed classMap)
                               (Fields (Trim (drop (nat start) match)
                                             (\<lambda>c. c = CHR '' '' \<or> is_quote c \<or> c = CHR 0x60)))
             in Replace1 updatedLine match
                  (''className = '' @ [squote] @ Join classes '' '' @ [squote]))
          (regexp2FindAllString jsClassNameRegex line) line"

text \<open>
  \<open>updateJSClasses\<close> runs its three loops one after the other, each on the matches
  found in the line as the loop before left it.
\<close>

definition updateJSClasses :: "string \<Rightarrow> (string \<rightharpoonup> string) \<Rightarrow> string" where
  "updateJSClasses line classMap =
     updateClassNames (updateClassLists (updateQuerySelectors line classMap) classMap) classMap"

text \<open>
  \<open>filepath.Ext(path)\<close>: the suffix of the last element of the path that starts at its
  final dot, empty when that element has no dot.
\<close>

definition Ext :: "string \<Rightarrow> string" where
  "Ext path =
     (let r = takeWhile (\<lambda>c. c \<noteq> CHR ''/'') (rev path)
      in if CHR ''.'' \<in> set r then CHR ''.'' # rev (takeWhile (\<lambda>c. c \<noteq> CHR ''.'') r) else [])"

text \<open>
  The lines that the successive calls of \<open>scanner.Scan()\<close> deliver for a file with the
  given content. A \<open>bufio.Scanner\<close> with the default split function \<open>ScanLines\<close> cuts
  at each line feed, drops one carriage return at the end of a line, and delivers a last
  line without line feed when it is not empty. Its buffer holds
  \<open>bufio.MaxScanTokenSize\<close> bytes: when that many bytes hold no line feed, \<open>Scan\<close>
  returns false and the loop of the caller ends.
\<close>

definition LF :: char where
  "LF = CHR 0x0A"

definition CR :: char where
  "CR = CHR 0x0D"

definition maxScanTokenSize :: nat where
  "maxScanTokenSize = 64 * 1024"

definition dropCR :: "string \<Rightarrow> string" where
  "dropCR data = (if data \<noteq> [] \<and> last data = CR then butlast data else data)"

function scanLines :: "string \<Rightarrow> string list" where
  "scanLines data =
     (if data = [] then []
      else let raw = takeWhile (\<lambda>c. c \<noteq> LF) data in
           if maxScanTokenSize \<le> length raw then []
           else dropCR raw # (case dropWhile (\<lambda>c. c \<noteq> LF) data of
                                [] \<Rightarrow> []
                              | nl # rest \<Rightarrow> scanLines rest))"
  by pat_completeness auto
termination
proof (relation "measure length", simp)
  fix data :: string and raw nl rest
  assume "dropWhile (\<lambda>c. c \<noteq> LF) data = nl # rest"
  then have "length (nl # rest) \<le> length data"
    using length_dropWhile_le [of "\<lambda>c. c \<noteq> LF" data] by simp
  then show "(rest, data) \<in> measure length"
    by simp
qed

declare scanLines.simps [simp del]

text \<open>
  \<open>renameClassesInFile\<close>, as a function from the content of the file at \<open>path\<close> to the
  content that replaces it; \<open>updateLine\<close> is the choice of the rewriter in the body of
  its loop. (A file that cannot be opened, or whose temporary file cannot be created, is
  left as it is; that branch is outside this function.)
\<close>

definition updateLine :: "string \<Rightarrow> string \<Rightarrow> (string \<rightharpoonup> string) \<Rightarrow> bool \<Rightarrow> string" where
  "updateLine path line classMap allowDuplicates =
     (if Ext path = ''.css'' then updateCSSClasses line classMap
      else if Ext path = ''.js'' then updateJSClasses line classMap
      else updateHTMLClasses line classMap allowDuplicates)"

definition renameClassesInFile :: "string \<Rightarrow> string \<Rightarrow> (string \<rightharpoonup> string) \<Rightarrow> bool \<Rightarrow> string" where
  "renameClassesInFile path content classMap allowDuplicates =
     concat (map (\<lambda>line. updateLine path line classMap allowDuplicates @ [LF])
                 (scanLines content))"

section \<open>Auxiliary notions\<close>

text \<open>Reading a decimal numeral back, to show that \<open>decimal\<close> is injective.\<close>

definition undecimal :: "string \<Rightarrow> nat" where
  "undecimal s = foldl (\<lambda>acc c. 10 * acc + ((of_char c :: nat) - 48)) 0 s"

text \<open>The suffix that follows the first character, as a function of the tier.\<close>

definition tier_suffix :: "int \<Rightarrow> string" where
  "tier_suffix t =
     (if t = 0 then [] else if t \<le> 9 then decimal (nat t) else CHR ''a'' # decimal (nat (t - 10)))"

text \<open>
  The keys with which the stylesheet and script rewriters consult the class map on a
  line: the identifier of each stylesheet match; the dotted segments of each
  \<open>querySelector\<close> match that ends in \<open>")\<close>; the trimmed arguments of each
  \<open>classList\<close> call; the fields of each assigned \<open>className\<close> string. The third loop of
  \<open>updateJSClasses\<close> reads the line as the second loop left it.
\<close>

definition cssLookups :: "string \<Rightarrow> string list" where
  "cssLookups line = map (drop 1) (regexp2FindAllString cssClassRegex line)"







section \<open>Properties of the short-name generator\<close>

lemma go_rem_quot_nonneg:
  "0 \<le> (i::int) \<Longrightarrow> i smod 26 = i mod 26 \<and> i sdiv 26 = i div 26"
  by (cases "i = 0") (simp_all add: signed_modulo_int_def signed_divide_int_def)

lemma of_char_digit_char: "d < 10 \<Longrightarrow> (of_char (digit_char d) :: nat) = 48 + d"
  by (simp add: digit_char_def)

lemma decimal_small: "n < 10 \<Longrightarrow> decimal n = [digit_char n]"
  by (subst decimal.simps) simp

lemma decimal_big: "\<not> n < 10 \<Longrightarrow> decimal n = decimal (n div 10) @ [digit_char (n mod 10)]"
  by (subst decimal.simps) simp

lemma decimal_nonempty: "decimal n \<noteq> []"
  by (cases "n < 10") (simp_all add: decimal_small decimal_big)

lemma decimal_digits: "c \<in> set (decimal n) \<Longrightarrow> is_digit c"
proof (induction n rule: decimal.induct)
  case (1 n)
  have m: "n mod 10 < 10" by simp
  show ?case
  proof (cases "n < 10")
    case True
    with "1.prems" show ?thesis
      by (simp add: decimal_small is_digit_def of_char_digit_char)
  next
    case False
    with "1.prems" have "c \<in> set (decimal (n div 10)) \<or> c = digit_char (n mod 10)"
      by (auto simp add: decimal_big)
    with False "1.IH" m show ?thesis
      by (auto simp add: is_digit_def of_char_digit_char)
  qed
qed

lemma undecimal_snoc: "undecimal (s @ [c]) = 10 * undecimal s + ((of_char c :: nat) - 48)"
  by (simp add: undecimal_def)

lemma undecimal_decimal: "undecimal (decimal n) = n"
proof (induction n rule: decimal.induct)
  case (1 n)
  have m: "n mod 10 < 10" by simp
  show ?case
  proof (cases "n < 10")
    case True
    then have "undecimal (decimal n) = undecimal ([] @ [digit_char n])"
      by (simp add: decimal_small)
    also have "\<dots> = n"
      using True unfolding undecimal_snoc by (simp add: of_char_digit_char undecimal_def)
    finally show ?thesis .
  next
    case False
    with "1.IH" have "undecimal (decimal (n div 10)) = n div 10" by simp
    with False m show ?thesis
      by (simp add: decimal_big undecimal_snoc of_char_digit_char)
  qed
qed

lemma decimal_inj: "decimal m = decimal n \<Longrightarrow> m = n"
  by (metis undecimal_decimal)

lemma length_decimal_pos: "1 \<le> length (decimal n)"
  using decimal_nonempty [of n] by (cases "decimal n") simp_all

lemma length_decimal_mono: "m \<le> n \<Longrightarrow> length (decimal m) \<le> length (decimal n)"
proof (induction n arbitrary: m rule: decimal.induct)
  case (1 n)
  show ?case
  proof (cases "m < 10")
    case True
    then show ?thesis
      using length_decimal_pos [of n] by (simp add: decimal_small)
  next
    case False
    with "1.prems" have n: "\<not> n < 10" by simp
    have "m div 10 \<le> n div 10"
      using "1.prems" by (rule div_le_mono)
    with "1.IH" n have "length (decimal (m div 10)) \<le> length (decimal (n div 10))"
      by simp
    with False n show ?thesis
      by (simp add: decimal_big)
  qed
qed

lemma shortname_split:
  "0 \<le> i \<Longrightarrow> generateShortClassName i = char_of (97 + i mod 26) # tier_suffix (i div 26)"
  using go_rem_quot_nonneg [of i]
  by (auto simp add: generateShortClassName_def Sprintf_d_def Let_def tier_suffix_def)

lemma decimal_not_a: "decimal n \<noteq> CHR ''a'' # w"
proof
  assume "decimal n = CHR ''a'' # w"
  then have "CHR ''a'' \<in> set (decimal n)" by simp
  then have "is_digit CHR ''a''" by (rule decimal_digits)
  then show False by (simp add: is_digit_def)
qed

lemma tier_suffix_inj:
  assumes "0 \<le> s" "0 \<le> t" "tier_suffix s = tier_suffix t"
  shows "s = t"
proof -
  note ne = decimal_nonempty decimal_nonempty [THEN not_sym]
    decimal_not_a decimal_not_a [THEN not_sym]
  consider "s = 0" | "1 \<le> s \<and> s \<le> 9" | "9 < s" using assms(1) by linarith
  then show ?thesis
  proof cases
    case 1
    with assms show ?thesis
      by (auto simp add: tier_suffix_def ne split: if_splits)
  next
    case 2
    with assms show ?thesis
      by (auto simp add: tier_suffix_def ne split: if_splits dest!: decimal_inj)
  next
    case 3
    with assms show ?thesis
      by (auto simp add: tier_suffix_def ne split: if_splits dest!: decimal_inj)
  qed
qed

lemma first_char_inj:
  assumes "0 \<le> a" "a < 26" "0 \<le> b" "b < 26" "char_of (97 + a) = char_of (97 + (b::int))"
  shows "a = b"
proof -
  have "(97 + a) mod 256 = (97 + b) mod 256"
    using assms(5) by (simp add: char_of_eq_iff take_bit_eq_mod)
  moreover have "(97 + a) mod 256 = 97 + a" "(97 + b) mod 256 = 97 + b"
    using assms by simp_all
  ultimately show ?thesis by simp
qed

lemma generateShortClassName_inj:
  assumes "0 \<le> i" "0 \<le> j" "generateShortClassName i = generateShortClassName j"
  shows "i = j"
proof -
  from assms have c: "char_of (97 + i mod 26) = char_of (97 + j mod 26)"
    and s: "tier_suffix (i div 26) = tier_suffix (j div 26)"
    by (simp_all add: shortname_split)
  have "i mod 26 = j mod 26"
    using c by (intro first_char_inj) simp_all
  moreover have "i div 26 = j div 26"
    using s assms by (intro tier_suffix_inj) simp_all
  ultimately show ?thesis
    by (metis mult_div_mod_eq)
qed

lemma length_tier_suffix_mono:
  assumes "0 \<le> s" "s \<le> t"
  shows "length (tier_suffix s) \<le> length (tier_suffix t)"
proof -
  have small: "length (decimal (nat u)) = 1" if "u \<le> 9" for u :: int
    using that by (simp add: decimal_small)
  have big: "length (decimal (nat (s - 10))) \<le> length (decimal (nat (t - 10)))"
    using assms by (intro length_decimal_mono) simp
  show ?thesis
    using assms small [of s] small [of t] big length_decimal_pos [of "nat (t - 10)"]
    by (auto simp add: tier_suffix_def)
qed

lemma length_shortname_mono:
  assumes "0 \<le> i" "i \<le> j"
  shows "length (generateShortClassName i) \<le> length (generateShortClassName j)"
proof -
  have "i div 26 \<le> j div 26"
    using assms(2) by (simp add: zdiv_mono1)
  moreover have "0 \<le> i div 26" using assms(1) by simp
  ultimately have "length (tier_suffix (i div 26)) \<le> length (tier_suffix (j div 26))"
    by (intro length_tier_suffix_mono)
  with assms show ?thesis
    by (simp add: shortname_split)
qed

text \<open>
  C4 (as amended). The generator gives \<open>a\<close> at index 0 and \<open>z\<close> at index 25; from index
  26 on the first character keeps cycling through the alphabet and the suffix is the
  tier, so the names at 26, 35 and 36 are \<open>a1\<close>, \<open>j1\<close> and \<open>k1\<close>.
\<close>

theorem shortname_values:
  "generateShortClassName 0 = ''a'' \<and> generateShortClassName 25 = ''z'' \<and>
   generateShortClassName 26 = ''a1'' \<and> generateShortClassName 35 = ''j1'' \<and>
   generateShortClassName 36 = ''k1''"
  by code_simp

text \<open>
  C4 (as stated) fails: the names at the indices 26, 35 and 36 are not \<open>a0\<close>, \<open>a9\<close>
  and \<open>aa0\<close>.
\<close>

theorem shortname_examples_counterexample:
  "\<not> (generateShortClassName 0 = ''a'' \<and> generateShortClassName 25 = ''z'' \<and>
      generateShortClassName 26 = ''a0'' \<and> generateShortClassName 35 = ''a9'' \<and>
      generateShortClassName 36 = ''aa0'')"
  by code_simp

text \<open>
  C5. For every index \<open>i \<ge> 0\<close>, with \<open>letter = chr('a' + i mod 26)\<close> and
  \<open>tier = i div 26\<close>, the short name is \<open>letter\<close> when the tier is 0, \<open>letter\<close>
  followed by the decimal digits of the tier when the tier is between 1 and 9, and
  \<open>letter\<close>, \<open>a\<close> and the decimal digits of \<open>tier - 10\<close> when the tier exceeds 9.
\<close>

theorem shortname_formula:
  "0 \<le> i \<Longrightarrow>
   generateShortClassName i =
     (let letter = char_of (97 + i mod 26); tier = i div 26
      in if tier = 0 then [letter]
         else if 1 \<le> tier \<and> tier \<le> 9 then [letter] @ decimal (nat tier)
         else [letter] @ ''a'' @ decimal (nat (tier - 10)))"
  using go_rem_quot_nonneg [of i]
  by (auto simp add: generateShortClassName_def Sprintf_d_def Let_def)

theorem shortname_formula_witness:
  "(0::int) \<le> 286 \<and> generateShortClassName 286 = ''aa1''"
proof -
  have c: "char_of (97::int) = CHR ''a''" "char_of (49::nat) = CHR ''1''"
    by code_simp+
  show ?thesis
    using shortname_formula [of 286] by (simp add: decimal.simps digit_char_def c)
qed

section \<open>Properties of ranking and assignment\<close>

lemma generateClassMap_fold_other:
  "k \<notin> name ` set cs \<Longrightarrow>
   fold (\<lambda>(i, class) classMap. classMap(name class \<mapsto> generateShortClassName (int i)))
        (enumerate n cs) m k = m k"
  by (induction cs arbitrary: n m) auto

lemma generateClassMap_fold_nth:
  "distinct (map name cs) \<Longrightarrow> i < length cs \<Longrightarrow>
   fold (\<lambda>(i, class) classMap. classMap(name class \<mapsto> generateShortClassName (int i)))
        (enumerate n cs) m (name (cs ! i)) = Some (generateShortClassName (int (n + i)))"
proof (induction cs arbitrary: n m i)
  case Nil
  then show ?case by simp
next
  case (Cons c cs)
  let ?F = "\<lambda>(i, class) classMap. classMap(name class \<mapsto> generateShortClassName (int i))"
  let ?m = "m(name c \<mapsto> generateShortClassName (int n))"
  have step: "fold ?F (enumerate n (c # cs)) m = fold ?F (enumerate (Suc n) cs) ?m"
    by simp
  show ?case
  proof (cases i)
    case 0
    have "name c \<notin> name ` set cs"
      using Cons.prems(1) by auto
    then have "fold ?F (enumerate (Suc n) cs) ?m (name c) = ?m (name c)"
      by (rule generateClassMap_fold_other)
    with 0 show ?thesis
      unfolding step by simp
  next
    case (Suc i')
    have ih: "fold ?F (enumerate (Suc n) cs) ?m (name (cs ! i'))
                = Some (generateShortClassName (int (Suc n + i')))"
      using Cons.prems Suc by (intro Cons.IH) simp_all
    have "(c # cs) ! i = cs ! i'" "Suc n + i' = n + i"
      using Suc by simp_all
    then show ?thesis
      unfolding step using ih by (simp only:)
  qed
qed

lemma generateClassMap_fold_dom:
  "dom (fold (\<lambda>(i, class) classMap. classMap(name class \<mapsto> generateShortClassName (int i)))
             (enumerate n cs) m) = dom m \<union> name ` set cs"
  by (induction cs arbitrary: n m) auto

lemma generateClassMap_nth:
  "distinct (map name classes) \<Longrightarrow> i < length classes \<Longrightarrow>
   generateClassMap classes (name (classes ! i)) = Some (generateShortClassName (int i))"
  using generateClassMap_fold_nth [of classes i 0 Map.empty]
  by (simp add: generateClassMap_def)

lemma generateClassMap_dom: "dom (generateClassMap classes) = name ` set classes"
  by (simp add: generateClassMap_def generateClassMap_fold_dom)

lemma rankClasses_facts:
  assumes "rankClasses classCount classes"
  shows "distinct (map name classes)"
    and "name ` set classes = dom classCount"
    and "sorted_wrt (\<lambda>a b. count' b \<le> count' a) classes"
    and "\<And>c. c \<in> set classes \<Longrightarrow> classCount (name c) = Some (count' c)"
proof -
  from assms obtain es where
    r: "map_range classCount es" and
    s: "sort_Slice (map (\<lambda>(className, count). \<lparr>name = className, count' = count\<rparr>) es)
                   (\<lambda>ci cj. count' ci > count' cj) classes"
    by (auto elim: rankClasses.cases)
  let ?xs = "map (\<lambda>(className, count). \<lparr>name = className, count' = count\<rparr>) es"
  have d: "distinct (map fst es)" and m: "map_of es = classCount"
    using r by (simp_all add: map_range_def)
  have p: "mset classes = mset ?xs" and o: "sorted_wrt (\<lambda>a b. \<not> count' a < count' b) classes"
    using s by (simp_all add: sort_Slice_def)
  have n: "map name ?xs = map fst es"
    by (simp add: case_prod_unfold)
  have "mset (map name classes) = mset (map name ?xs)"
    using p by (metis mset_map)
  then have pn: "mset (map name classes) = mset (map fst es)"
    unfolding n .
  show "distinct (map name classes)"
    using pn d by (metis mset_eq_imp_distinct_iff)
  have "set (map name classes) = set (map fst es)"
    using pn by (rule mset_eq_setD)
  moreover have "dom classCount = fst ` set es"
    unfolding m [symmetric] by (rule dom_map_of_conv_image_fst)
  ultimately show "name ` set classes = dom classCount"
    by simp
  show "sorted_wrt (\<lambda>a b. count' b \<le> count' a) classes"
    using o by (simp add: not_less)
  show "classCount (name c) = Some (count' c)" if "c \<in> set classes" for c
  proof -
    have "c \<in> set ?xs"
      using that p by (metis mset_eq_setD)
    then obtain k v where "(k, v) \<in> set es" "c = \<lparr>name = k, count' = v\<rparr>"
      by auto
    then show ?thesis
      using d m by auto
  qed
qed

text \<open>Every finite usage table has a ranking: the relation is not empty.\<close>

lemma rankClasses_total:
  assumes "finite (dom classCount)"
  shows "\<exists>classes. rankClasses classCount classes"
proof -
  obtain ks where ks: "set ks = dom classCount" "distinct ks"
    using finite_distinct_list [OF assms] by blast
  define es where "es = map (\<lambda>k. (k, the (classCount k))) ks"
  have "map fst es = ks"
    by (simp add: es_def comp_def)
  moreover have "map_of es = classCount"
  proof
    fix k
    show "map_of es k = classCount k"
      using ks(1) by (cases "k \<in> set ks") (auto simp add: es_def map_of_map_restrict restrict_map_def)
  qed
  ultimately have r: "map_range classCount es"
    using ks(2) by (simp add: map_range_def)
  let ?xs = "map (\<lambda>(className, count). \<lparr>name = className, count' = count\<rparr>) es"
  let ?ys = "sort_key (\<lambda>c. - count' c) ?xs"
  have "sorted (map (\<lambda>c. - count' c) ?ys)"
    by (rule sorted_sort_key)
  then have "sorted_wrt (\<lambda>a b. \<not> count' a < count' b) ?ys"
    by (simp add: sorted_map not_less)
  then have "sort_Slice ?xs (\<lambda>ci cj. count' ci > count' cj) ?ys"
    by (simp add: sort_Slice_def)
  with r show ?thesis
    by (blast intro: rankClasses.intros)
qed

text \<open>
  C6. For every usage table and every ranked list \<open>rankClasses\<close> may return for it, the
  class map built from the list has exactly the observed class names as its keys, each
  name occurring once in the ranked list; the map is injective (two distinct class names
  never share a short name), and the short name of the class at rank \<open>i\<close> is
  \<open>generateShortClassName i\<close>.
\<close>

theorem classmap_bijection:
  assumes "rankClasses classCount classes"
  shows "dom (generateClassMap classes) = dom classCount \<and>
         distinct (map name classes) \<and> set (map name classes) = dom classCount \<and>
         inj_on (generateClassMap classes) (dom classCount) \<and>
         (\<forall>i < length classes.
            generateClassMap classes (name (classes ! i)) = Some (generateShortClassName (int i)))"
proof -
  note f = rankClasses_facts [OF assms]
  have nth: "generateClassMap classes (name (classes ! i)) = Some (generateShortClassName (int i))"
    if "i < length classes" for i
    using f(1) that by (rule generateClassMap_nth)
  have "inj_on (generateClassMap classes) (dom classCount)"
  proof (rule inj_onI)
    fix x y
    assume x: "x \<in> dom classCount" and y: "y \<in> dom classCount"
      and e: "generateClassMap classes x = generateClassMap classes y"
    from x f(2) obtain i where i: "i < length classes" "x = name (classes ! i)"
      by (metis image_iff in_set_conv_nth)
    from y f(2) obtain j where j: "j < length classes" "y = name (classes ! j)"
      by (metis image_iff in_set_conv_nth)
    from e i j have "generateShortClassName (int i) = generateShortClassName (int j)"
      by (simp add: nth)
    then have "int i = int j"
      by (intro generateShortClassName_inj) simp_all
    with i j show "x = y" by simp
  qed
  with f nth show ?thesis
    by (simp add: generateClassMap_dom)
qed

text \<open>
  C7. Whenever class \<open>x\<close> has a strictly greater count than class \<open>y\<close>, \<open>x\<close> stands at
  a strictly smaller index of the ranked list than \<open>y\<close>, the two receive the short names
  of these indices, and the short name of \<open>x\<close> is at most as long as that of \<open>y\<close>. The
  witness is the table with \<open>foo\<close> and \<open>bar\<close> counted 5 times and \<open>baz\<close> once.
\<close>

theorem ranking_order:
  assumes "rankClasses classCount classes"
    and "classCount x = Some cx" and "classCount y = Some cy" and "cy < cx"
  shows "\<exists>i j. i < j \<and> j < length classes \<and>
           name (classes ! i) = x \<and> name (classes ! j) = y \<and>
           generateClassMap classes x = Some (generateShortClassName (int i)) \<and>
           generateClassMap classes y = Some (generateShortClassName (int j)) \<and>
           length (generateShortClassName (int i)) \<le> length (generateShortClassName (int j))"
proof -
  note f = rankClasses_facts [OF assms(1)]
  from assms(2) f(2) obtain i where i: "i < length classes" "name (classes ! i) = x"
    by (metis domI image_iff in_set_conv_nth)
  from assms(3) f(2) obtain j where j: "j < length classes" "name (classes ! j) = y"
    by (metis domI image_iff in_set_conv_nth)
  have ci: "count' (classes ! i) = cx"
    using f(4) [of "classes ! i"] i assms(2) by simp
  have cj: "count' (classes ! j) = cy"
    using f(4) [of "classes ! j"] j assms(3) by simp
  have "i < j"
  proof (rule ccontr)
    assume "\<not> i < j"
    then consider "i = j" | "j < i" by linarith
    then show False
    proof cases
      case 1
      with ci cj assms(4) show False by simp
    next
      case 2
      have "count' (classes ! i) \<le> count' (classes ! j)"
        using sorted_wrt_nth_less [OF f(3) 2 i(1)] .
      with ci cj assms(4) show False by simp
    qed
  qed
  moreover have "generateClassMap classes x = Some (generateShortClassName (int i))"
    using generateClassMap_nth [OF f(1) i(1)] i(2) by simp
  moreover have "generateClassMap classes y = Some (generateShortClassName (int j))"
    using generateClassMap_nth [OF f(1) j(1)] j(2) by simp
  moreover have "length (generateShortClassName (int i)) \<le> length (generateShortClassName (int j))"
    using \<open>i < j\<close> by (intro length_shortname_mono) simp_all
  ultimately show ?thesis
    using i j by blast
qed


theorem classmap_bijection_witness:
  "rankClasses (map_of [(''nav'', 3), (''btn'', 7)])
               [\<lparr>name = ''btn'', count' = 7\<rparr>, \<lparr>name = ''nav'', count' = 3\<rparr>] \<and>
   dom (generateClassMap [\<lparr>name = ''btn'', count' = 7\<rparr>, \<lparr>name = ''nav'', count' = 3\<rparr>])
     = dom (map_of [(''nav'', 3::int), (''btn'', 7)]) \<and>
   generateClassMap [\<lparr>name = ''btn'', count' = 7\<rparr>, \<lparr>name = ''nav'', count' = 3\<rparr>] ''btn''
     = Some ''a'' \<and>
   generateClassMap [\<lparr>name = ''btn'', count' = 7\<rparr>, \<lparr>name = ''nav'', count' = 3\<rparr>] ''nav''
     = Some ''b''"
proof -
  let ?M = "map_of [(''nav'', 3::int), (''btn'', 7)]"
  let ?CS = "[\<lparr>name = ''btn'', count' = 7\<rparr>, \<lparr>name = ''nav'', count' = 3\<rparr>]"
  have h: "rankClasses ?M ?CS"
    by (rule rankClasses.intros [where es = "[(''nav'', 3), (''btn'', 7)]"])
       (simp_all add: map_range_def sort_Slice_def)
  have g: "generateShortClassName 0 = ''a''" "generateShortClassName 1 = ''b''"
    by code_simp+
  from classmap_bijection [OF h]
  have d: "dom (generateClassMap ?CS) = dom ?M"
    and n: "\<forall>i < length ?CS. generateClassMap ?CS (name (?CS ! i)) = Some (generateShortClassName (int i))"
    by blast+
  from n [rule_format, of 0] n [rule_format, of 1]
  have "generateClassMap ?CS ''btn'' = Some ''a''" and "generateClassMap ?CS ''nav'' = Some ''b''"
    by (simp_all add: g)
  with h d show ?thesis
    by (intro conjI)
qed

theorem ranking_order_witness:
  "rankClasses (map_of [(''foo'', 5), (''bar'', 5), (''baz'', 1)])
     [\<lparr>name = ''bar'', count' = 5\<rparr>, \<lparr>name = ''foo'', count' = 5\<rparr>, \<lparr>name = ''baz'', count' = 1\<rparr>] \<and>
   (\<exists>i j. i < j \<and>
      j < length [\<lparr>name = ''bar'', count' = 5\<rparr>, \<lparr>name = ''foo'', count' = 5\<rparr>,
                  \<lparr>name = ''baz'', count' = 1\<rparr>] \<and>
      name ([\<lparr>name = ''bar'', count' = 5\<rparr>, \<lparr>name = ''foo'', count' = 5\<rparr>,
             \<lparr>name = ''baz'', count' = 1\<rparr>] ! i) = ''foo'' \<and>
      name ([\<lparr>name = ''bar'', count' = 5\<rparr>, \<lparr>name = ''foo'', count' = 5\<rparr>,
             \<lparr>name = ''baz'', count' = 1\<rparr>] ! j) = ''baz'' \<and>
      generateClassMap [\<lparr>name = ''bar'', count' = 5\<rparr>, \<lparr>name = ''foo'', count' = 5\<rparr>,
                        \<lparr>name = ''baz'', count' = 1\<rparr>] ''foo''
        = Some (generateShortClassName (int i)) \<and>
      generateClassMap [\<lparr>name = ''bar'', count' = 5\<rparr>, \<lparr>name = ''foo'', count' = 5\<rparr>,
                        \<lparr>name = ''baz'', count' = 1\<rparr>] ''baz''
        = Some (generateShortClassName (int j)) \<and>
      length (generateShortClassName (int i)) \<le> length (generateShortClassName (int j)))"
proof -
  let ?M = "map_of [(''foo'', 5::int), (''bar'', 5), (''baz'', 1)]"
  let ?CS = "[\<lparr>name = ''bar'', count' = 5\<rparr>, \<lparr>name = ''foo'', count' = 5\<rparr>,
              \<lparr>name = ''baz'', count' = 1\<rparr>]"
  have h: "rankClasses ?M ?CS"
    by (rule rankClasses.intros [where es = "[(''foo'', 5), (''bar'', 5), (''baz'', 1)]"])
       (simp_all add: map_range_def sort_Slice_def)
  have x: "?M ''foo'' = Some 5" and y: "?M ''baz'' = Some 1" and l: "(1::int) < 5"
    by simp_all
  show ?thesis
    using h ranking_order [OF h x y l] by (rule conjI)
qed

section \<open>Behaviour of the collectors and rewriters on the examples of the specification\<close>

text \<open>
  C1 (code differs). On the line \<open><div class="foo bar foo">\<close> with the class map
  \<open>{foo \<rightarrow> a, bar \<rightarrow> b}\<close> the markup rewriter splits the text of the whole match,
  \<open>class="foo bar foo"\<close>, into fields, so that only \<open>bar\<close> is looked up as it stands, and
  wraps the result in a second \<open>class="..."\<close>; with and without duplicate suppression
  the line becomes \<open><div class="class="foo b foo"">\<close>.
\<close>

theorem markup_roundtrip_observed:
  \<open>updateHTMLClasses ''<div class="foo bar foo">'' [''foo'' \<mapsto> ''a'', ''bar'' \<mapsto> ''b''] False
     = ''<div class="class="foo b foo"">'' \<and>
   updateHTMLClasses ''<div class="foo bar foo">'' [''foo'' \<mapsto> ''a'', ''bar'' \<mapsto> ''b''] True
     = ''<div class="class="foo b foo"">''\<close>
  by code_simp

text \<open>
  C2 (code differs). On the line \<open><div class="foo bar">\<close> the markup collector counts the
  two fields of the whole match, \<open>class="foo\<close> and \<open>bar"\<close>: the first carries the
  \<open>class=\<close> prefix and a quote, the second a quote, and neither \<open>foo\<close> nor \<open>bar\<close> is
  counted.
\<close>

theorem markup_collector_observed:
  \<open>extractClassesFromHTML ''<div class="foo bar">'' Map.empty
     = [''class="foo'' \<mapsto> 1, ''bar"'' \<mapsto> 1]\<close>
proof -
  have m: \<open>regexp2FindAllString htmlClassRegex ''<div class="foo bar">'' = [''class="foo bar"'']\<close>
    by code_simp
  have f: \<open>Fields ''class="foo bar"'' = [''class="foo'', ''bar"'']\<close>
    by code_simp
  show ?thesis
    by (simp add: extractClassesFromHTML_def m f increment_def)
qed

text \<open>
  C3 (code differs). On the line \<open>document.querySelector(".a.b")\<close> the script collector
  splits the whole match at the dots and counts every piece after the first: \<open>a\<close>, and
  \<open>b")\<close> with the closing quote and parenthesis attached.
\<close>

theorem queryselector_collector_observed:
  \<open>extractClassesFromJS ''document.querySelector(".a.b")'' Map.empty
     = [''a'' \<mapsto> 1, ''b")'' \<mapsto> 1]\<close>
proof -
  have q: \<open>regexp2FindAllString jsQuerySelectorRegex ''document.querySelector(".a.b")''
             = [''querySelector(".a.b")'']\<close>
    by code_simp
  have l: \<open>regexp2FindAllString jsClassListRegex ''document.querySelector(".a.b")'' = []\<close>
    by code_simp
  have n: \<open>regexp2FindAllString jsClassNameRegex ''document.querySelector(".a.b")'' = []\<close>
    by code_simp
  have s: \<open>Split ''querySelector(".a.b")'' CHR ''.'' = [''querySelector("'', ''a'', ''b")'']\<close>
    by code_simp
  show ?thesis
    by (simp add: extractClassesFromJS_def q l n s increment_def)
qed

text \<open>
  C9 (code differs). The stylesheet rewriter replaces the first occurrence of the text of
  a match in the line, which need not be the matched span. On the line \<open>.ab .a\<close> with
  the class map \<open>{ab \<rightarrow> a, a \<rightarrow> b}\<close> the result is \<open>.b .a\<close> where the mapped names give
  \<open>.a .b\<close>; with the class map \<open>{a \<rightarrow> x}\<close> the span \<open>.ab\<close>, whose identifier is
  absent from the map, becomes \<open>.xb\<close>, and the span \<open>.a\<close> stays.
\<close>

theorem stylesheet_rewrite_observed:
  \<open>updateCSSClasses ''.ab .a'' [''ab'' \<mapsto> ''a'', ''a'' \<mapsto> ''b''] = ''.b .a'' \<and>
   updateCSSClasses ''.ab .a'' [''a'' \<mapsto> ''x''] = ''.xb .a''\<close>
  by code_simp

section \<open>The slices taken from matches are in range\<close>

lemma ends_suffix: "e \<in> set (ends r s) \<Longrightarrow> suffix e s"
proof (induction r s arbitrary: e rule: ends.induct)
  case (1 s)
  then show ?case by simp
next
  case (2 P s)
  then show ?case
    by (cases s) (auto simp add: suffix_Cons split: if_splits)
next
  case (3 a b s)
  from "3.prems" obtain t where t: "t \<in> set (ends a s)" "e \<in> set (ends b t)"
    by auto
  from "3.IH"(1) [OF t(1)] "3.IH"(2) [OF t] show ?case
    by (rule suffix_order.trans [rotated])
next
  case (4 a b s)
  then show ?case by auto
next
  case (5 a s)
  from "5.prems" consider "e = s"
    | t where "t \<in> set (ends a s)" "length t < length s" "e \<in> set (ends (Star a) t)"
    by (subst (asm) ends.simps) (auto split: if_splits)
  then show ?case
  proof cases
    case 1
    then show ?thesis by simp
  next
    case 2
    from "5.IH"(1) [OF 2(1)] "5.IH"(2) [OF 2] show ?thesis
      by (rule suffix_order.trans [rotated])
  qed
qed

lemma ends_Seq_iff: "e \<in> set (ends (Seq a b) s) \<longleftrightarrow> (\<exists>t \<in> set (ends a s). e \<in> set (ends b t))"
  by simp

lemma ends_Seq_suffix:
  "e \<in> set (ends (Seq a b) s) \<Longrightarrow> \<exists>t. suffix t s \<and> e \<in> set (ends b t)"
  using ends_suffix by (auto simp add: ends_Seq_iff)

lemma ends_Lit: "e \<in> set (ends (Lit c) s) \<longleftrightarrow> s = c # e"
  by (cases s) (auto simp add: Lit_def)

lemma ends_Str: "e \<in> set (ends (Str w) s) \<longleftrightarrow> s = w @ e"
  by (induction w arbitrary: s) (auto simp add: Str_def ends_Lit)

lemma matches_are_ends:
  "m \<in> set (regexp2FindAllString re s) \<Longrightarrow> \<exists>e s'. e \<in> set (ends re s') \<and> s' = m @ e"
proof (induction re s rule: regexp2FindAllString.induct)
  case (1 re s)
  show ?case
  proof (cases "ends re s")
    case Nil
    with "1.prems" "1.IH"(1) show ?thesis
      by (subst (asm) regexp2FindAllString.simps) (auto split: list.splits)
  next
    case (Cons e es)
    then have e: "e \<in> set (ends re s)" by simp
    then have "suffix e s" by (rule ends_suffix)
    then obtain p where p: "s = p @ e" by (auto simp add: suffix_def)
    then have n: "length s - length e = length p" "take (length p) s = p" "drop (length p) s = e"
      by simp_all
    show ?thesis
    proof (cases "length p = 0")
      case True
      with p have "s = [] @ e" by simp
      with e have here: "\<exists>e s'. e \<in> set (ends re s') \<and> s' = [] @ e" by blast
      from "1.prems" Cons n True
      have "m = [] \<or> (\<exists>c cs. s = c # cs \<and> m \<in> set (regexp2FindAllString re cs))"
        by (subst (asm) regexp2FindAllString.simps) (auto simp add: Let_def split: list.splits)
      with here "1.IH"(2) [OF Cons] n True show ?thesis
        by (auto simp add: Let_def)
    next
      case False
      from "1.prems" Cons n False
      have "m = p \<or> m \<in> set (regexp2FindAllString re e)"
        by (subst (asm) regexp2FindAllString.simps) (auto simp add: Let_def)
      moreover have "\<exists>e s'. e \<in> set (ends re s') \<and> s' = p @ e"
        using e p by blast
      moreover have "m \<in> set (regexp2FindAllString re e) \<Longrightarrow> ?thesis"
        using "1.IH"(3) [OF Cons, of "length s - length e"] n False by simp
      ultimately show ?thesis by blast
    qed
  qed
qed


lemma classList_match_shape:
  assumes "e \<in> set (ends jsClassListRegex s)"
  shows "\<exists>x y. s = ''classList.'' @ x @ ''('' @ y @ '')'' @ e \<and>
               x \<in> {''add'', ''remove'', ''toggle''}"
proof -
  let ?cls = "Sym (\<lambda>c. is_word c \<or> is_space c \<or> c = CHR ''-'')"
  let ?r8 = "Seq (Lit CHR '')'') Eps"
  let ?r7 = "Seq (Star (Sym is_space)) ?r8"
  let ?r6 = "Seq (Star (seqs [Lit CHR '','', Star (Sym is_space), Sym is_quote, Plus ?cls,
                             Sym is_quote])) ?r7"
  let ?r5 = "Seq (Sym is_quote) ?r6"
  let ?r4 = "Seq (Plus ?cls) ?r5"
  let ?r3 = "Seq (Sym is_quote) ?r4"
  let ?r2 = "Seq (Star (Sym is_space)) ?r3"
  let ?r1 = "Seq (Lit CHR ''('') ?r2"
  let ?r0 = "Seq (Alt (Str ''add'') (Alt (Str ''remove'') (Str ''toggle''))) ?r1"
  have re: "jsClassListRegex = Seq (Str ''classList.'') ?r0"
    by (simp add: jsClassListRegex_def seqs_def)
  from assms obtain t0 where t0: "s = ''classList.'' @ t0" "e \<in> set (ends ?r0 t0)"
    unfolding re using ends_Seq_iff ends_Str by blast
  from t0(2) obtain t1 where t1: "t1 \<in> set (ends (Alt (Str ''add'') (Alt (Str ''remove'') (Str ''toggle''))) t0)"
      "e \<in> set (ends ?r1 t1)"
    using ends_Seq_iff by blast
  from t1(1) obtain x where x: "t0 = x @ t1" "x \<in> {''add'', ''remove'', ''toggle''}"
    by (auto simp add: ends_Str)
  from t1(2) obtain t2 where t2: "t1 = CHR ''('' # t2" "e \<in> set (ends ?r2 t2)"
    using ends_Seq_iff ends_Lit by blast
  from t2(2) obtain t3 where t3: "suffix t3 t2" "e \<in> set (ends ?r3 t3)"
    using ends_Seq_suffix by blast
  from t3(2) obtain t4 where t4: "suffix t4 t3" "e \<in> set (ends ?r4 t4)"
    using ends_Seq_suffix by blast
  from t4(2) obtain t5 where t5: "suffix t5 t4" "e \<in> set (ends ?r5 t5)"
    using ends_Seq_suffix by blast
  from t5(2) obtain t6 where t6: "suffix t6 t5" "e \<in> set (ends ?r6 t6)"
    using ends_Seq_suffix by blast
  from t6(2) obtain t7 where t7: "suffix t7 t6" "e \<in> set (ends ?r7 t7)"
    using ends_Seq_suffix by blast
  from t7(2) obtain t8 where t8: "suffix t8 t7" "e \<in> set (ends ?r8 t8)"
    using ends_Seq_suffix by blast
  from t8(2) have e: "t8 = CHR '')'' # e"
    by (simp add: ends_Lit)
  have "suffix t8 t2"
    using t3(1) t4(1) t5(1) t6(1) t7(1) t8(1) by (meson suffix_order.trans)
  then obtain y where "t2 = y @ t8"
    by (auto simp add: suffix_def)
  with t0(1) x t2(1) e show ?thesis
    by auto
qed

text \<open>
  The slice \<open>match[start:end]\<close> taken from a \<open>classList\<close> match is always in range.
\<close>

lemma classList_slice_in_range:
  assumes "match \<in> set (regexp2FindAllString jsClassListRegex line)"
  shows "0 \<le> Index match CHR ''('' + 1 \<and>
         Index match CHR ''('' + 1 \<le> LastIndex match CHR '')'' \<and>
         LastIndex match CHR '')'' \<le> int (length match)"
proof -
  from matches_are_ends [OF assms] obtain e s' where
    "e \<in> set (ends jsClassListRegex s')" "s' = match @ e"
    by blast
  with classList_match_shape [of e s'] obtain x y where
    m: "match = ''classList.'' @ x @ ''('' @ y @ '')''" and x: "x \<in> {''add'', ''remove'', ''toggle''}"
    by auto
  have i: "Index match CHR ''('' = int (length (''classList.'' @ x))"
    using x unfolding m by (auto simp add: Index_def)
  have "rev match = CHR '')'' # rev (''classList.'' @ x @ ''('' @ y)"
    unfolding m by simp
  then have l: "LastIndex match CHR '')'' = int (length match) - 1"
    by (simp add: LastIndex_def)
  have "length match = length (''classList.'' @ x) + length y + 2"
    unfolding m by simp
  with i l show ?thesis
    by simp
qed

text \<open>A stylesheet match is never empty, so \<open>match[1:]\<close> is in range.\<close>

lemma css_match_nonempty:
  assumes "match \<in> set (regexp2FindAllString cssClassRegex line)"
  shows "\<exists>rest. match = CHR ''.'' # rest"
proof -
  from matches_are_ends [OF assms] obtain e s' where
    e: "e \<in> set (ends cssClassRegex s')" and s': "s' = match @ e"
    by blast
  have re: "cssClassRegex = Seq (Lit CHR ''.'')
              (Seq (Sym (\<lambda>c. is_letter c \<or> c = CHR ''_''))
                   (Seq (Star (Sym (\<lambda>c. is_word c \<or> c = CHR ''-''))) Eps))"
    by (simp add: cssClassRegex_def seqs_def)
  from e obtain t where t: "s' = CHR ''.'' # t"
    "e \<in> set (ends (Seq (Sym (\<lambda>c. is_letter c \<or> c = CHR ''_''))
                        (Seq (Star (Sym (\<lambda>c. is_word c \<or> c = CHR ''-''))) Eps)) t)"
    unfolding re using ends_Seq_iff ends_Lit by blast
  from t(2) have "suffix e t"
    by (rule ends_suffix)
  then have "length e < length s'"
    using t(1) by (auto simp add: suffix_def)
  with s' t(1) show ?thesis
    by (cases match) auto
qed

section \<open>Properties of the rewriters on unmapped names\<close>










lemma fold_unchanged: "(\<And>x u. x \<in> set xs \<Longrightarrow> f x u = u) \<Longrightarrow> fold f xs u = u"
  by (induction xs) simp_all


lemma updateCSSClasses_unmapped:
  assumes "set (cssLookups line) \<inter> dom classMap = {}"
  shows "updateCSSClasses line classMap = line"
  unfolding updateCSSClasses_def
proof (rule fold_unchanged)
  fix match u
  assume "match \<in> set (regexp2FindAllString cssClassRegex line)"
  then have "drop 1 match \<in> set (cssLookups line)"
    by (simp add: cssLookups_def)
  with assms have "classMap (drop 1 match) = None"
    by auto
  then show "(case classMap (drop 1 match) of
                Some newClass \<Rightarrow> Replace1 u match (''.'' @ newClass)
              | None \<Rightarrow> u) = u"
    by simp
qed













section \<open>Properties of the rewrite pass over a file\<close>

lemma scanLines_Nil: "scanLines [] = []"
  by (subst scanLines.simps) simp

lemma scanLines_last:
  assumes "final \<noteq> []" "LF \<notin> set final" "length final < maxScanTokenSize"
  shows "scanLines final = [dropCR final]"
proof -
  have t: "takeWhile (\<lambda>c. c \<noteq> LF) final = final" "dropWhile (\<lambda>c. c \<noteq> LF) final = []"
    using assms(2) by (auto simp add: takeWhile_eq_all_conv)
  show ?thesis
    using assms(1,3) by (subst scanLines.simps) (simp add: Let_def t)
qed

lemma scanLines_line:
  assumes "LF \<notin> set r" "length r < maxScanTokenSize"
  shows "scanLines (r @ LF # rest) = dropCR r # scanLines rest"
proof -
  have "takeWhile (\<lambda>c. c \<noteq> LF) (r @ LF # rest) = r"
    using assms(1) by (subst takeWhile_append2) auto
  moreover have "dropWhile (\<lambda>c. c \<noteq> LF) (r @ LF # rest) = LF # rest"
    using assms(1) by (subst dropWhile_append2) auto
  ultimately show ?thesis
    using assms(2) by (subst scanLines.simps) (simp add: Let_def)
qed

lemma scanLines_content:
  assumes "\<forall>r \<in> set (final # raws). LF \<notin> set r \<and> length r < maxScanTokenSize"
  shows "scanLines (concat (map (\<lambda>r. r @ [LF]) raws) @ final)
         = map dropCR (raws @ (if final = [] then [] else [final]))"
  using assms
proof (induction raws)
  case Nil
  then show ?case
    by (cases "final = []") (simp_all add: scanLines_Nil scanLines_last)
next
  case (Cons r raws)
  then have "scanLines (r @ LF # (concat (map (\<lambda>r. r @ [LF]) raws) @ final))
           = dropCR r # scanLines (concat (map (\<lambda>r. r @ [LF]) raws) @ final)"
    by (intro scanLines_line) simp_all
  with Cons show ?case
    by simp
qed

lemma scanLines_too_long:
  assumes "LF \<notin> set data" "maxScanTokenSize \<le> length data"
  shows "scanLines data = []"
proof -
  have t: "takeWhile (\<lambda>c. c \<noteq> LF) data = data"
    using assms(1) by (auto simp add: takeWhile_eq_all_conv)
  show ?thesis
    using assms(2) by (subst scanLines.simps) (simp add: Let_def t)
qed

lemma Ext_css: "Ext ''style.css'' = ''.css''"
  by code_simp

text \<open>
  C10 (as stated) fails: an empty file is rewritten to an empty file, which does not end
  in a line feed; and a file that is one line of 65536 characters, too long for the
  buffer of the scanner, is rewritten to an empty file as well, so its line is not
  emitted.
\<close>

theorem rewritten_file_counterexample:
  "renameClassesInFile ''style.css'' [] Map.empty False = [] \<and>
   \<not> HasSuffix (renameClassesInFile ''style.css'' [] Map.empty False) [LF] \<and>
   renameClassesInFile ''style.css'' (replicate 65536 CHR ''a'') Map.empty False = [] \<and>
   \<not> HasSuffix (renameClassesInFile ''style.css'' (replicate 65536 CHR ''a'') Map.empty False) [LF]"
proof -
  have "scanLines (replicate 65536 CHR ''a'') = []"
    by (rule scanLines_too_long) (simp_all add: LF_def maxScanTokenSize_def)
  then show ?thesis
    by (simp add: renameClassesInFile_def scanLines_Nil HasSuffix_def)
qed

text \<open>
  C10 (as amended). Let the content of a file be the lines \<open>raws\<close>, each followed by a
  line feed, and a last part \<open>final\<close> without one, every line shorter than the buffer of
  the scanner. The rewritten file is, for each line (and for \<open>final\<close> when it is not
  empty), the rewritten line without its carriage return, followed by one line feed. So
  a rewritten non-empty file ends in a line feed, and a stylesheet none of whose names is
  a key of the class map comes out with its lines unchanged except for their endings.
\<close>

theorem rewritten_file_line_endings:
  assumes "\<forall>r \<in> set (final # raws). LF \<notin> set r \<and> length r < maxScanTokenSize"
  shows "renameClassesInFile path (concat (map (\<lambda>r. r @ [LF]) raws) @ final) classMap allowDuplicates
           = concat (map (\<lambda>r. updateLine path (dropCR r) classMap allowDuplicates @ [LF])
                         (raws @ (if final = [] then [] else [final]))) \<and>
         (concat (map (\<lambda>r. r @ [LF]) raws) @ final \<noteq> [] \<longrightarrow>
            HasSuffix (renameClassesInFile path (concat (map (\<lambda>r. r @ [LF]) raws) @ final)
                         classMap allowDuplicates) [LF]) \<and>
         (Ext path = ''.css'' \<and>
          (\<forall>r \<in> set (raws @ (if final = [] then [] else [final])).
             set (cssLookups (dropCR r)) \<inter> dom classMap = {}) \<longrightarrow>
            renameClassesInFile path (concat (map (\<lambda>r. r @ [LF]) raws) @ final) classMap allowDuplicates
              = concat (map (\<lambda>r. dropCR r @ [LF]) (raws @ (if final = [] then [] else [final]))))"
proof -
  let ?lines = "raws @ (if final = [] then [] else [final])"
  let ?out = "renameClassesInFile path (concat (map (\<lambda>r. r @ [LF]) raws) @ final) classMap allowDuplicates"
  have out: "?out = concat (map (\<lambda>r. updateLine path (dropCR r) classMap allowDuplicates @ [LF]) ?lines)"
    unfolding renameClassesInFile_def scanLines_content [OF assms] by (simp add: comp_def)
  have suffix: "HasSuffix (concat (map (\<lambda>r. f r @ [LF]) ls)) [LF]" if "ls \<noteq> []" for f and ls :: "string list"
    using that
  proof (induction ls rule: rev_induct)
    case Nil
    then show ?case by simp
  next
    case (snoc l ls)
    show ?case by (simp add: HasSuffix_def)
  qed
  have ne: "?lines \<noteq> []" if "concat (map (\<lambda>r. r @ [LF]) raws) @ final \<noteq> []"
    using that by (cases raws) auto
  have css: "?out = concat (map (\<lambda>r. dropCR r @ [LF]) ?lines)"
    if "Ext path = ''.css''" and "\<forall>r \<in> set ?lines. set (cssLookups (dropCR r)) \<inter> dom classMap = {}"
  proof -
    have "updateLine path (dropCR r) classMap allowDuplicates = dropCR r" if "r \<in> set ?lines" for r
      using that \<open>Ext path = ''.css''\<close>
        \<open>\<forall>r \<in> set ?lines. set (cssLookups (dropCR r)) \<inter> dom classMap = {}\<close>
      by (simp add: updateLine_def updateCSSClasses_unmapped)
    then have "map (\<lambda>r. updateLine path (dropCR r) classMap allowDuplicates @ [LF]) ?lines
             = map (\<lambda>r. dropCR r @ [LF]) ?lines"
      by (intro map_cong) simp_all
    with out show ?thesis by (simp only:)
  qed
  show ?thesis
  proof (intro conjI impI)
    show "?out = concat (map (\<lambda>r. updateLine path (dropCR r) classMap allowDuplicates @ [LF]) ?lines)"
      by (rule out)
    show "HasSuffix ?out [LF]" if "concat (map (\<lambda>r. r @ [LF]) raws) @ final \<noteq> []"
      unfolding out using ne [OF that] by (rule suffix)
    show "?out = concat (map (\<lambda>r. dropCR r @ [LF]) ?lines)"
      if "Ext path = ''.css'' \<and>
          (\<forall>r \<in> set ?lines. set (cssLookups (dropCR r)) \<inter> dom classMap = {})"
      using that css by blast
  qed
qed


theorem rewritten_file_line_endings_witness:
  "renameClassesInFile ''style.css'' (''.x{}'' @ [CR, LF] @ [LF] @ ''.y{}'') [''z'' \<mapsto> ''a''] False
     = ''.x{}'' @ [LF] @ [LF] @ ''.y{}'' @ [LF] \<and>
   HasSuffix (renameClassesInFile ''style.css'' (''.x{}'' @ [CR, LF] @ [LF] @ ''.y{}'')
                [''z'' \<mapsto> ''a''] False) [LF]"
proof -
  let ?raws = "[''.x{}'' @ [CR], []]"
  let ?final = "''.y{}''"
  have h: "\<forall>r \<in> set (?final # ?raws). LF \<notin> set r \<and> length r < maxScanTokenSize"
    by (simp add: LF_def CR_def maxScanTokenSize_def)
  have d: "dropCR [CHR ''.'', CHR ''x'', CHR ''{'', CHR ''}'', CR] = ''.x{}''"
    "dropCR [] = []" "dropCR ''.y{}'' = ''.y{}''"
    by (simp_all add: dropCR_def CR_def)
  have l: "cssLookups ''.x{}'' = [''x'']" "cssLookups [] = []" "cssLookups ''.y{}'' = [''y'']"
    by code_simp+
  have u: "\<forall>r \<in> set (?raws @ (if ?final = [] then [] else [?final])).
             set (cssLookups (dropCR r)) \<inter> dom [''z'' \<mapsto> ''a''] = {}"
    by (simp add: d l)
  have c: "concat (map (\<lambda>r. r @ [LF]) ?raws) @ ?final = ''.x{}'' @ [CR, LF] @ [LF] @ ''.y{}''"
    by simp
  have o: "concat (map (\<lambda>r. dropCR r @ [LF]) (?raws @ (if ?final = [] then [] else [?final])))
             = ''.x{}'' @ [LF] @ [LF] @ ''.y{}'' @ [LF]"
    by (simp add: d)
  from rewritten_file_line_endings [OF h, of "''style.css''" "[''z'' \<mapsto> ''a'']" False]
  show ?thesis
    unfolding c o using Ext_css u by blast
qed

end
